theory Spec2Isabelle
  imports Main
begin

section \<open>Registration extrinsics of \<^verbatim>\<open>bittensor/extrinsics/registration.py\<close>\<close>

text \<open>
  The three drivers \<^verbatim>\<open>register_extrinsic\<close>, \<^verbatim>\<open>burned_register_extrinsic\<close> and
  \<^verbatim>\<open>run_faucet_extrinsic\<close> talk to collaborators that are not part of the module: the
  chain client (\<^verbatim>\<open>subtensor\<close>), the solver (\<^verbatim>\<open>create_pow\<close>), the confirmation
  prompt (\<^verbatim>\<open>Confirm.ask\<close>) and \<^verbatim>\<open>torch\<close>.  They are parameters of the model: a
  collaborator is a function from the state of the outside world \<open>'w\<close> to its answer
  and the next state of the world.  The type \<open>'p\<close> is the solver's \<^verbatim>\<open>POWSolution\<close>.

  Every driver returns its outcome, the list of collaborator calls it made, in
  order and with their answers, and the final state of the world.  Console output,
  \<^verbatim>\<open>time.sleep\<close> and the unlocking of the coldkey (\<^verbatim>\<open>wallet.coldkey\<close>) are not
  recorded.  A collaborator answers with a value of its declared type and raises
  nothing, except inside the faucet's \<^verbatim>\<open>try\<close> block, where it may be interrupted.
  The loops are recursion on a fuel argument: each iteration of a loop takes one
  unit, and a loop started inside an iteration gets the fuel that is left.  A run
  that is cut off yields \<open>Unfinished\<close> with the loop variables at that moment.
\<close>

subsection \<open>Calls, outcomes\<close>

datatype 'p event =
    SubnetExists bool
  | GetNeuron bool
  | ConfirmAsk bool
  | CudaIsAvailable bool
  | CreatePow "'p option"
  | IsStale 'p bool
  | DoPowRegister 'p bool "string option"
  | IsHotkeyRegistered bool
  | GetBalance int
  | Recycle int
  | DoBurnedRegister bool "string option"
  | GetCurrentBlock int
  | SubmitExtrinsic 'p bool
  | Interrupt

datatype exn = TypeError

datatype ('a, 'v) outcome = Returned 'a | Raised exn | Unfinished 'v

definition emit :: "'e list \<Rightarrow> 'r \<times> 'e list \<times> 'w \<Rightarrow> 'r \<times> 'e list \<times> 'w" where
  "emit es r = (case r of (x, t, w) \<Rightarrow> (x, es @ t, w))"

text \<open>Python's \<^verbatim>\<open>needle in haystack\<close> on strings.\<close>

fun str_in :: "string \<Rightarrow> string \<Rightarrow> bool" where
  "str_in needle [] = (needle = [])"
| "str_in needle (c # cs) = (take (length needle) (c # cs) = needle \<or> str_in needle cs)"

subsection \<open>Collaborators of the proof-of-work and the fee-based path\<close>

record ('w, 'p) subtensor =
  subnet_exists :: "'w \<Rightarrow> bool \<times> 'w"
  neuron_is_null :: "'w \<Rightarrow> bool \<times> 'w"
  confirm_ask :: "'w \<Rightarrow> bool \<times> 'w"
  cuda_is_available :: "'w \<Rightarrow> bool \<times> 'w"
  create_pow :: "'w \<Rightarrow> 'p option \<times> 'w"
  is_stale :: "'p \<Rightarrow> 'w \<Rightarrow> bool \<times> 'w"
  do_pow_register :: "'p \<Rightarrow> 'w \<Rightarrow> (bool \<times> string option) \<times> 'w"
  is_hotkey_registered :: "'w \<Rightarrow> bool \<times> 'w"
  get_balance :: "'w \<Rightarrow> int \<times> 'w"
  recycle :: "'w \<Rightarrow> int \<times> 'w"
  do_burned_register :: "'w \<Rightarrow> (bool \<times> string option) \<times> 'w"
  get_current_block :: "'w \<Rightarrow> int \<times> 'w"

text \<open>
  \<open>neuron_is_null\<close> is \<^verbatim>\<open>subtensor.get_neuron_for_pubkey_and_subnet(...).is_null\<close>.
  The arguments the source passes unchanged to every call (wallet, netuid, the
  wait flags, the solver's hardware options) are part of the collaborator.
\<close>

record config =
  prompt :: bool
  torch :: bool
  max_allowed_attempts :: int
  cuda :: bool

subsection \<open>\<^verbatim>\<open>register_extrinsic\<close>\<close>

datatype submit_exit = Return bool | Raise exn | Stale | Timeout

text \<open>
  Lines 169 to 213: the loop \<^verbatim>\<open>while not pow_result.is_stale(...)\<close>.  \<open>Stale\<close> is the
  exit through the loop's \<^verbatim>\<open>else\<close> clause; the loop has no \<^verbatim>\<open>break\<close>.  On a
  boolean, \<^verbatim>\<open>success is not True or success is False\<close> is \<^verbatim>\<open>not success\<close>.  A failed
  submission whose message is \<^verbatim>\<open>None\<close> makes
  \<^verbatim>\<open>"key is already registered" in err_msg\<close> raise \<^verbatim>\<open>TypeError\<close>.
\<close>

primrec submit_loop ::
  "nat \<Rightarrow> ('w, 'p) subtensor \<Rightarrow> 'p \<Rightarrow> 'w \<Rightarrow> submit_exit \<times> 'p event list \<times> 'w" where
  "submit_loop 0 st pow_result w = (Timeout, [], w)"
| "submit_loop (Suc n) st pow_result w =
    (case is_stale st pow_result w of (stale, w1) \<Rightarrow>
     emit [IsStale pow_result stale]
      (if stale then (Stale, [], w1)
       else
        (case do_pow_register st pow_result w1 of ((success, err_msg), w2) \<Rightarrow>
         emit [DoPowRegister pow_result success err_msg]
          (if \<not> success then
             (case err_msg of
                None \<Rightarrow> (Raise TypeError, [], w2)
              | Some msg \<Rightarrow>
                 if str_in ''key is already registered'' msg then (Return True, [], w2)
                 else submit_loop n st pow_result w2)
           else
             (case is_hotkey_registered st w2 of (is_registered, w3) \<Rightarrow>
              emit [IsHotkeyRegistered is_registered]
               (if is_registered then (Return True, [], w3)
                else submit_loop n st pow_result w3))))))"

text \<open>Lines 124 to 128: the check of CUDA made before each solve when \<^verbatim>\<open>cuda\<close> is set.\<close>

definition cuda_check ::
  "('w, 'p) subtensor \<Rightarrow> config \<Rightarrow> 'w \<Rightarrow> bool \<times> 'p event list \<times> 'w" where
  "cuda_check st c w =
    (if cuda c then
       (case cuda_is_available st w of (avail, w1) \<Rightarrow> (avail, [CudaIsAvailable avail], w1))
     else (True, [], w))"

text \<open>Lines 119 to 226: the loop \<^verbatim>\<open>while True\<close>, with the attempt counter.\<close>

primrec register_loop ::
  "nat \<Rightarrow> ('w, 'p) subtensor \<Rightarrow> config \<Rightarrow> int \<Rightarrow> 'w
    \<Rightarrow> (bool, int) outcome \<times> 'p event list \<times> 'w" where
  "register_loop 0 st c attempts w = (Unfinished attempts, [], w)"
| "register_loop (Suc n) st c attempts w =
    (case cuda_check st c w of (ok, t0, w0) \<Rightarrow>
     emit t0
      (if \<not> ok then (Returned False, [], w0)
       else
        (case create_pow st w0 of (pow_result, w1) \<Rightarrow>
         emit [CreatePow pow_result]
          (case pow_result of
             None \<Rightarrow>
              (case is_hotkey_registered st w1 of (is_registered, w2) \<Rightarrow>
               emit [IsHotkeyRegistered is_registered]
                (if is_registered then (Returned True, [], w2)
                 else if attempts < max_allowed_attempts c
                   then register_loop n st c (attempts + 1) w2
                 else (Returned False, [], w2)))
           | Some p \<Rightarrow>
              (case submit_loop n st p w1 of
                 (Return b, t, w2) \<Rightarrow> (Returned b, t, w2)
               | (Raise e, t, w2) \<Rightarrow> (Raised e, t, w2)
               | (Timeout, t, w2) \<Rightarrow> (Unfinished attempts, t, w2)
               | (Stale, t, w2) \<Rightarrow> emit t (register_loop n st c attempts w2))))))"

text \<open>Lines 103 to 111: the confirmation asked only when \<^verbatim>\<open>prompt\<close> is set.\<close>

definition ask_if :: "bool \<Rightarrow> ('w \<Rightarrow> bool \<times> 'w) \<Rightarrow> 'w \<Rightarrow> bool \<times> 'p event list \<times> 'w" where
  "ask_if p ask w =
    (if p then (case ask w of (yes, w1) \<Rightarrow> (yes, [ConfirmAsk yes], w1)) else (True, [], w))"

definition register_extrinsic ::
  "nat \<Rightarrow> ('w, 'p) subtensor \<Rightarrow> config \<Rightarrow> 'w \<Rightarrow> (bool, int) outcome \<times> 'p event list \<times> 'w" where
  "register_extrinsic fuel st c w =
    (case subnet_exists st w of (exists, w1) \<Rightarrow>
     emit [SubnetExists exists]
      (if \<not> exists then (Returned False, [], w1)
       else
        (case neuron_is_null st w1 of (is_null, w2) \<Rightarrow>
         emit [GetNeuron is_null]
          (if \<not> is_null then (Returned True, [], w2)
           else
            (case ask_if (prompt c) (confirm_ask st) w2 of (yes, t3, w3) \<Rightarrow>
             emit t3
              (if \<not> yes then (Returned False, [], w3)
               else if \<not> torch c then (Returned False, [], w3)
               else register_loop fuel st c 1 w3))))))"

subsection \<open>\<^verbatim>\<open>burned_register_extrinsic\<close>\<close>

text \<open>
  Lines 250 to 326.  There is no loop and no exception: the failure branch only
  formats \<^verbatim>\<open>err_msg\<close>, which \<^verbatim>\<open>str.format\<close> accepts when it is \<^verbatim>\<open>None\<close>.
\<close>

definition burned_register_extrinsic ::
  "('w, 'p) subtensor \<Rightarrow> config \<Rightarrow> 'w \<Rightarrow> bool \<times> 'p event list \<times> 'w" where
  "burned_register_extrinsic st c w =
    (case subnet_exists st w of (exists, w1) \<Rightarrow>
     emit [SubnetExists exists]
      (if \<not> exists then (False, [], w1)
       else
        (case neuron_is_null st w1 of (is_null, w2) \<Rightarrow>
         case get_balance st w2 of (old_balance, w3) \<Rightarrow>
         case recycle st w3 of (recycle_amount, w4) \<Rightarrow>
         emit [GetNeuron is_null, GetBalance old_balance, Recycle recycle_amount]
          (if \<not> is_null then (True, [], w4)
           else
            (case ask_if (prompt c) (confirm_ask st) w4 of (yes, t5, w5) \<Rightarrow>
             emit t5
              (if \<not> yes then (False, [], w5)
               else
                (case do_burned_register st w5 of ((success, err_msg), w6) \<Rightarrow>
                 emit [DoBurnedRegister success err_msg]
                  (if \<not> success then (False, [], w6)
                   else
                    (case get_current_block st w6 of (block, w7) \<Rightarrow>
                     case get_balance st w7 of (new_balance, w8) \<Rightarrow>
                     case is_hotkey_registered st w8 of (is_registered, w9) \<Rightarrow>
                     emit [GetCurrentBlock block, GetBalance new_balance,
                           IsHotkeyRegistered is_registered]
                      (if is_registered then (True, [], w9) else (False, [], w9)))))))))))"

subsection \<open>\<^verbatim>\<open>run_faucet_extrinsic\<close>\<close>

text \<open>
  The body of the faucet's loop is a \<^verbatim>\<open>try\<close> block that catches
  \<^verbatim>\<open>KeyboardInterrupt\<close>, so a collaborator called inside it either answers or is
  interrupted.  \<open>fc_submit_extrinsic\<close> stands for lines 419 to 439: composing the
  call from the solution, signing it, submitting it and processing the events of
  the response; its answer is \<^verbatim>\<open>response.is_success\<close>.
\<close>

datatype 'a interruptible = KeyboardInterrupt | Value 'a

record ('w, 'p) faucet_client =
  fc_confirm_ask :: "'w \<Rightarrow> bool \<times> 'w"
  fc_old_balance :: "'w \<Rightarrow> int \<times> 'w"
  fc_cuda_is_available :: "'w \<Rightarrow> bool interruptible \<times> 'w"
  fc_create_pow :: "'w \<Rightarrow> 'p option interruptible \<times> 'w"
  fc_is_stale :: "'p \<Rightarrow> 'w \<Rightarrow> bool interruptible \<times> 'w"
  fc_submit_extrinsic :: "'p \<Rightarrow> 'w \<Rightarrow> bool interruptible \<times> 'w"
  fc_new_balance :: "'w \<Rightarrow> int interruptible \<times> 'w"

text \<open>Python's \<^verbatim>\<open>str\<close> of an integer, for the message of line 466.\<close>

fun str_nat :: "nat \<Rightarrow> string" where
  "str_nat n =
    (if n < 10 then [''0123456789'' ! n]
     else str_nat (n div 10) @ [''0123456789'' ! (n mod 10)])"

definition str_int :: "int \<Rightarrow> string" where
  "str_int i = (if i < 0 then CHR ''-'' # str_nat (nat (- i)) else str_nat (nat i))"

text \<open>
  Line 389, the condition \<^verbatim>\<open>pow_result is None or pow_result.is_stale(...)\<close>:
  \<open>Value None\<close> when it holds and a solution must be made, \<open>Value (Some p)\<close> when it
  fails and \<open>p\<close> is the solution to submit.
\<close>

definition missing_or_stale ::
  "('w, 'p) faucet_client \<Rightarrow> 'p option \<Rightarrow> 'w
    \<Rightarrow> 'p option interruptible \<times> 'p event list \<times> 'w" where
  "missing_or_stale fc pow_result w =
    (case pow_result of
       None \<Rightarrow> (Value None, [], w)
     | Some p \<Rightarrow>
        (case fc_is_stale fc p w of
           (KeyboardInterrupt, w1) \<Rightarrow> (KeyboardInterrupt, [Interrupt], w1)
         | (Value stale, w1) \<Rightarrow>
            (Value (if stale then None else Some p), [IsStale p stale], w1)))"

datatype 'p solved = Fresh 'p | Leave "bool \<times> string" | Cut

text \<open>Lines 388 to 418: the loop that solves until it holds a solution that is not stale.\<close>

primrec faucet_solve ::
  "nat \<Rightarrow> ('w, 'p) faucet_client \<Rightarrow> config \<Rightarrow> 'p option \<Rightarrow> 'w
    \<Rightarrow> 'p solved \<times> 'p event list \<times> 'w" where
  "faucet_solve 0 fc c pow_result w = (Cut, [], w)"
| "faucet_solve (Suc n) fc c pow_result w =
    (case missing_or_stale fc pow_result w of
       (KeyboardInterrupt, t, w1) \<Rightarrow> (Leave (True, ''Done''), t, w1)
     | (Value (Some p), t, w1) \<Rightarrow> (Fresh p, t, w1)
     | (Value None, t, w1) \<Rightarrow>
        emit t
         (case (if cuda c then fc_cuda_is_available fc w1 else (Value True, w1)) of
            (KeyboardInterrupt, w2) \<Rightarrow> (Leave (True, ''Done''), [Interrupt], w2)
          | (Value avail, w2) \<Rightarrow>
             emit (if cuda c then [CudaIsAvailable avail] else [])
              (if \<not> avail then (Leave (False, ''CUDA is not available.''), [], w2)
               else
                (case fc_create_pow fc w2 of
                   (KeyboardInterrupt, w3) \<Rightarrow> (Leave (True, ''Done''), [Interrupt], w3)
                 | (Value new_pow, w3) \<Rightarrow>
                    emit [CreatePow new_pow] (faucet_solve n fc c new_pow w3)))))"

text \<open>
  Lines 386 to 466: the loop \<^verbatim>\<open>while True\<close> with its two counters.  The exceptions
  \<^verbatim>\<open>MaxSuccessException\<close> and \<^verbatim>\<open>MaxAttemptsException\<close> are raised and caught in
  the same iteration, so they appear as the value returned by their handler.
\<close>

primrec faucet_loop ::
  "nat \<Rightarrow> ('w, 'p) faucet_client \<Rightarrow> config \<Rightarrow> int \<Rightarrow> int \<Rightarrow> 'w
    \<Rightarrow> (bool \<times> string, int \<times> int) outcome \<times> 'p event list \<times> 'w" where
  "faucet_loop 0 fc c attempts successes w = (Unfinished (attempts, successes), [], w)"
| "faucet_loop (Suc n) fc c attempts successes w =
    (case faucet_solve n fc c None w of
       (Cut, t, w1) \<Rightarrow> (Unfinished (attempts, successes), t, w1)
     | (Leave r, t, w1) \<Rightarrow> (Returned r, t, w1)
     | (Fresh p, t, w1) \<Rightarrow>
        emit t
         (case fc_submit_extrinsic fc p w1 of
            (KeyboardInterrupt, w2) \<Rightarrow> (Returned (True, ''Done''), [Interrupt], w2)
          | (Value is_success, w2) \<Rightarrow>
             emit [SubmitExtrinsic p is_success]
              (if \<not> is_success then
                 (if attempts = max_allowed_attempts c then
                    (Returned (False, ''Max attempts reached: '' @ str_int (max_allowed_attempts c)),
                     [], w2)
                  else faucet_loop n fc c (attempts + 1) successes w2)
               else
                (case fc_new_balance fc w2 of
                   (KeyboardInterrupt, w3) \<Rightarrow> (Returned (True, ''Done''), [Interrupt], w3)
                 | (Value new_balance, w3) \<Rightarrow>
                    emit [GetBalance new_balance]
                     (if successes = 3 then
                        (Returned (True, ''Max successes reached: 3''), [], w3)
                      else faucet_loop n fc c attempts (successes + 1) w3)))))"

definition run_faucet_extrinsic ::
  "nat \<Rightarrow> ('w, 'p) faucet_client \<Rightarrow> config \<Rightarrow> 'w
    \<Rightarrow> (bool \<times> string, int \<times> int) outcome \<times> 'p event list \<times> 'w" where
  "run_faucet_extrinsic fuel fc c w =
    (case ask_if (prompt c) (fc_confirm_ask fc) w of (yes, t1, w1) \<Rightarrow>
     emit t1
      (if \<not> yes then (Returned (False, []), [], w1)
       else if \<not> torch c then (Returned (False, ''Requires torch''), [], w1)
       else
        (case fc_old_balance fc w1 of (old_balance, w2) \<Rightarrow>
         emit [GetBalance old_balance] (faucet_loop fuel fc c 1 1 w2))))"

subsection \<open>Properties of call lists\<close>

text \<open>
  \<open>each_followed F t\<close>: every call \<open>e\<close> of the list \<open>t\<close>, with the calls \<open>post\<close> made
  after it, satisfies \<open>F e post\<close>.  \<open>final_only P t\<close>: a call that satisfies \<open>P\<close> is the
  last one.
\<close>

definition each_followed :: "('e \<Rightarrow> 'e list \<Rightarrow> bool) \<Rightarrow> 'e list \<Rightarrow> bool" where
  "each_followed F t \<longleftrightarrow> (\<forall>pre e post. t = pre @ e # post \<longrightarrow> F e post)"

definition final_only :: "('e \<Rightarrow> bool) \<Rightarrow> 'e list \<Rightarrow> bool" where
  "final_only P t \<longleftrightarrow> (\<forall>pre e post. t = pre @ e # post \<and> P e \<longrightarrow> post = [])"

text \<open>A submission rejected because the key is already registered (line 180).\<close>

fun already :: "'p event \<Rightarrow> bool" where
  "already (DoPowRegister q False (Some msg)) = str_in ''key is already registered'' msg"
| "already _ = False"

text \<open>
  What follows a submission whose success flag is set: the registration probe, and
  after a denying probe the next check of the same solution.  \<open>ret\<close> says that the
  run returned \<^verbatim>\<open>True\<close>, \<open>off\<close> that it was cut off.
\<close>

definition probe_next :: "bool \<Rightarrow> bool \<Rightarrow> 'p event \<Rightarrow> 'p event list \<Rightarrow> bool" where
  "probe_next ret off e post \<longleftrightarrow>
    (\<forall>q m. e = DoPowRegister q True m \<longrightarrow>
      (\<exists>r rest. post = IsHotkeyRegistered r # rest \<and>
        (r \<longrightarrow> rest = [] \<and> ret) \<and>
        (\<not> r \<longrightarrow> rest = [] \<and> off \<or> (\<exists>b rest'. rest = IsStale q b # rest'))))"

text \<open>Counting the solver's invocations, those that gave no solution, and the fee submissions.\<close>

fun is_solve :: "'p event \<Rightarrow> bool" where
  "is_solve (CreatePow x) = True"
| "is_solve _ = False"

definition solves :: "'p event list \<Rightarrow> nat" where
  "solves t = length (filter is_solve t)"

definition fails :: "'p event list \<Rightarrow> nat" where
  "fails t = length (filter (\<lambda>e. e = CreatePow None) t)"

fun is_burn :: "'p event \<Rightarrow> bool" where
  "is_burn (DoBurnedRegister s m) = True"
| "is_burn _ = False"

definition burns :: "'p event list \<Rightarrow> nat" where
  "burns t = length (filter is_burn t)"

text \<open>
  What follows a staleness check that finds the solution stale: the next solve,
  preceded by the check of CUDA when \<open>gpu\<close> is set.  \<open>off\<close> says that the run was
  cut off.
\<close>

fun is_expiry :: "'p event \<Rightarrow> bool" where
  "is_expiry (IsStale q True) = True"
| "is_expiry _ = False"

definition solve_first :: "bool \<Rightarrow> bool \<Rightarrow> 'p event list \<Rightarrow> bool" where
  "solve_first gpu off post \<longleftrightarrow>
    post = [] \<and> off
    \<or> (\<exists>x rest. post = CreatePow x # rest)
    \<or> gpu \<and> (post = [CudaIsAvailable False]
              \<or> (\<exists>x rest. post = CudaIsAvailable True # CreatePow x # rest))"

definition resolve_next :: "bool \<Rightarrow> bool \<Rightarrow> 'p event \<Rightarrow> 'p event list \<Rightarrow> bool" where
  "resolve_next gpu off e post \<longleftrightarrow> (is_expiry e \<longrightarrow> solve_first gpu off post)"

text \<open>Counting the faucet's submissions by their result.\<close>

fun is_submit :: "'p event \<Rightarrow> bool" where
  "is_submit (SubmitExtrinsic p b) = True"
| "is_submit _ = False"

fun is_success :: "'p event \<Rightarrow> bool" where
  "is_success (SubmitExtrinsic p b) = b"
| "is_success _ = False"

fun is_failure :: "'p event \<Rightarrow> bool" where
  "is_failure (SubmitExtrinsic p b) = (\<not> b)"
| "is_failure _ = False"

definition successes :: "'p event list \<Rightarrow> nat" where
  "successes t = length (filter is_success t)"

definition failures :: "'p event list \<Rightarrow> nat" where
  "failures t = length (filter is_failure t)"

text \<open>The two values returned by the handlers of lines 462 to 466.\<close>

definition max_successes :: "(bool \<times> string, int \<times> int) outcome" where
  "max_successes = Returned (True, ''Max successes reached: 3'')"

definition max_attempts :: "config \<Rightarrow> (bool \<times> string, int \<times> int) outcome" where
  "max_attempts c =
    Returned (False, ''Max attempts reached: '' @ str_int (max_allowed_attempts c))"

text \<open>\<open>ends_with s t\<close>: the calls \<open>s\<close> are the last ones of \<open>t\<close>.\<close>

definition ends_with :: "'e list \<Rightarrow> 'e list \<Rightarrow> bool" where
  "ends_with s t \<longleftrightarrow> (\<exists>pre. t = pre @ s)"

subsection \<open>Scripted collaborators\<close>

text \<open>
  A chain whose state is a clock that every call advances by one; the answers of
  the solver, of the staleness check, of the submissions and of the registration
  queries are functions of the clock.
\<close>

definition scripted ::
  "(nat \<Rightarrow> 'p option) \<Rightarrow> (nat \<Rightarrow> bool) \<Rightarrow> (nat \<Rightarrow> bool \<times> string option) \<Rightarrow> (nat \<Rightarrow> bool)
    \<Rightarrow> (nat, 'p) subtensor" where
  "scripted sol stale sub reg =
    \<lparr> subnet_exists = (\<lambda>w. (True, w + 1)),
      neuron_is_null = (\<lambda>w. (\<not> reg w, w + 1)),
      confirm_ask = (\<lambda>w. (True, w + 1)),
      cuda_is_available = (\<lambda>w. (True, w + 1)),
      create_pow = (\<lambda>w. (sol w, w + 1)),
      is_stale = (\<lambda>p w. (stale w, w + 1)),
      do_pow_register = (\<lambda>p w. (sub w, w + 1)),
      is_hotkey_registered = (\<lambda>w. (reg w, w + 1)),
      get_balance = (\<lambda>w. (0, w + 1)),
      recycle = (\<lambda>w. (1, w + 1)),
      do_burned_register = (\<lambda>w. (sub w, w + 1)),
      get_current_block = (\<lambda>w. (int w, w + 1)) \<rparr>"

definition plain :: "int \<Rightarrow> config" where
  "plain m = \<lparr> prompt = False, torch = True, max_allowed_attempts = m, cuda = False \<rparr>"

text \<open>The chain accepts the first submission; the hotkey is registered from then on.\<close>

definition accepting :: "(nat, unit) subtensor" where
  "accepting = scripted (\<lambda>w. Some ()) (\<lambda>w. False) (\<lambda>w. (True, None)) (\<lambda>w. 5 \<le> w)"

text \<open>Every submission is rejected with a generic message; each solution is stale
  at its second check.\<close>

definition rejecting :: "(nat, unit) subtensor" where
  "rejecting =
    scripted (\<lambda>w. Some ()) (\<lambda>w. w mod 4 = 1) (\<lambda>w. (False, Some ''Invalid work'')) (\<lambda>w. False)"

text \<open>The submission is rejected because the key is already registered.\<close>

definition taken :: "(nat, unit) subtensor" where
  "taken =
    scripted (\<lambda>w. Some ()) (\<lambda>w. False)
      (\<lambda>w. (False, Some ''Hotkey: key is already registered'')) (\<lambda>w. False)"

text \<open>The submission fails and carries no message.\<close>

definition silent :: "(nat, unit) subtensor" where
  "silent = scripted (\<lambda>w. Some ()) (\<lambda>w. False) (\<lambda>w. (False, None)) (\<lambda>w. False)"

text \<open>The solver never finds a solution and the hotkey is never registered.\<close>

definition unsolved :: "(nat, unit) subtensor" where
  "unsolved = scripted (\<lambda>w. None) (\<lambda>w. False) (\<lambda>w. (False, Some ''Invalid work'')) (\<lambda>w. False)"

text \<open>Every solution is stale at its first check.\<close>

definition expiring :: "(nat, unit) subtensor" where
  "expiring = scripted (\<lambda>w. Some ()) (\<lambda>w. True) (\<lambda>w. (True, None)) (\<lambda>w. False)"

text \<open>
  A faucet whose state is a clock that every call advances by one: the solver
  always gives a solution that is not stale, nothing is interrupted, and the
  result of a submission is a function of the clock.
\<close>

definition faucet_script :: "(nat \<Rightarrow> bool) \<Rightarrow> (nat, unit) faucet_client" where
  "faucet_script ok =
    \<lparr> fc_confirm_ask = (\<lambda>w. (True, w + 1)),
      fc_old_balance = (\<lambda>w. (0, w + 1)),
      fc_cuda_is_available = (\<lambda>w. (Value True, w + 1)),
      fc_create_pow = (\<lambda>w. (Value (Some ()), w + 1)),
      fc_is_stale = (\<lambda>p w. (Value False, w + 1)),
      fc_submit_extrinsic = (\<lambda>p w. (Value (ok w), w + 1)),
      fc_new_balance = (\<lambda>w. (Value (int w), w + 1)) \<rparr>"

text \<open>Every submission succeeds.\<close>

definition generous :: "(nat, unit) faucet_client" where
  "generous = faucet_script (\<lambda>w. True)"

text \<open>The first submission fails, the second succeeds, the third fails.\<close>

definition flaky :: "(nat, unit) faucet_client" where
  "flaky = faucet_script (\<lambda>w. w = 6)"

section \<open>Lemmas\<close>

lemma emit_simp [simp]: "emit es (x, t, w) = (x, es @ t, w)"
  by (simp add: emit_def)

lemma emit_eq [simp]:
  "emit es r = (x, t, w) \<longleftrightarrow> (\<exists>t'. r = (x, t', w) \<and> t = es @ t')"
  by (cases r) (auto simp: emit_def)

lemma each_followed_Nil [simp]: "each_followed F []"
  by (simp add: each_followed_def)

lemma each_followed_Cons [simp]:
  "each_followed F (e # es) \<longleftrightarrow> F e es \<and> each_followed F es"
  unfolding each_followed_def by (auto simp: Cons_eq_append_conv)

lemma each_followed_append:
  assumes "each_followed F' xs" and "each_followed F ys"
      and "\<And>e post. F' e post \<Longrightarrow> F e (post @ ys)"
    shows "each_followed F (xs @ ys)"
  using assms(1) by (induction xs) (auto simp: assms(2,3))

lemma final_only_Nil [simp]: "final_only P []"
  by (simp add: final_only_def)

lemma final_only_Cons [simp]:
  "final_only P (e # es) \<longleftrightarrow> (P e \<longrightarrow> es = []) \<and> final_only P es"
  unfolding final_only_def by (auto simp: Cons_eq_append_conv)

lemma final_only_append:
  "final_only P (xs @ ys) \<longleftrightarrow>
    (if ys = [] then final_only P xs else (\<forall>e\<in>set xs. \<not> P e) \<and> final_only P ys)"
  by (induction xs) auto

lemma solves_simps [simp]:
  "solves [] = 0"
  "solves (e # es) = (if is_solve e then Suc (solves es) else solves es)"
  "solves (xs @ ys) = solves xs + solves ys"
  by (simp_all add: solves_def)

lemma fails_simps [simp]:
  "fails [] = 0"
  "fails (e # es) = (if e = CreatePow None then Suc (fails es) else fails es)"
  "fails (xs @ ys) = fails xs + fails ys"
  by (simp_all add: fails_def)

lemma fails_0: "fails t = 0 \<longleftrightarrow> CreatePow None \<notin> set t"
  by (induction t) auto

lemma burns_simps [simp]:
  "burns [] = 0"
  "burns (e # es) = (if is_burn e then Suc (burns es) else burns es)"
  "burns (xs @ ys) = burns xs + burns ys"
  by (simp_all add: burns_def)

lemma probe_next_simps [simp]:
  "probe_next ret off (SubnetExists b) post"
  "probe_next ret off (GetNeuron b) post"
  "probe_next ret off (ConfirmAsk b) post"
  "probe_next ret off (CudaIsAvailable b) post"
  "probe_next ret off (CreatePow x) post"
  "probe_next ret off (IsStale p b) post"
  "probe_next ret off (IsHotkeyRegistered b) post"
  "probe_next ret off (DoPowRegister p False m) post"
  "probe_next ret off (DoPowRegister p True m) post \<longleftrightarrow>
    (\<exists>r rest. post = IsHotkeyRegistered r # rest \<and>
        (r \<longrightarrow> rest = [] \<and> ret) \<and>
        (\<not> r \<longrightarrow> rest = [] \<and> off \<or> (\<exists>b rest'. rest = IsStale p b # rest')))"
  by (simp_all add: probe_next_def)


subsection \<open>The submit loop\<close>

lemma submit_loop_already:
  "submit_loop n st p w = (x, t, w') \<Longrightarrow>
    final_only already t \<and> (x \<noteq> Return True \<longrightarrow> (\<forall>e\<in>set t. \<not> already e))"
proof (induction n arbitrary: w x t w')
  case 0
  then show ?case by auto
next
  case (Suc n)
  from Suc.prems show ?case
    by (auto split: prod.splits if_splits option.splits dest!: Suc.IH)
qed


lemma submit_loop_no_solve:
  "submit_loop n st p w = (x, t, w') \<Longrightarrow> solves t = 0 \<and> fails t = 0 \<and> x \<noteq> Return False"
proof (induction n arbitrary: w x t w')
  case 0
  then show ?case by auto
next
  case (Suc n)
  from Suc.prems show ?case
    by (auto split: prod.splits if_splits option.splits dest!: Suc.IH)
qed

lemma submit_loop_rejected:
  assumes "\<forall>p w. \<exists>msg. fst (do_pow_register st p w) = (False, Some msg)
            \<and> \<not> str_in ''key is already registered'' msg"
  shows "submit_loop n st p w = (x, t, w') \<Longrightarrow> x = Stale \<or> x = Timeout"
proof (induction n arbitrary: w x t w')
  case 0
  then show ?case by auto
next
  case (Suc n)
  obtain stale w1 where s: "is_stale st p w = (stale, w1)"
    by (cases "is_stale st p w")
  obtain msg w2 where d: "do_pow_register st p w1 = ((False, Some msg), w2)"
    and m: "\<not> str_in ''key is already registered'' msg"
    using assms by (metis fst_conv surj_pair)
  from Suc.prems s d m show ?case
    by (auto split: if_splits dest!: Suc.IH)
qed

subsection \<open>The attempt loop\<close>

text \<open>The ways through one iteration of the loop of lines 119 to 226.\<close>

lemma register_loop_SucE:
  assumes "register_loop (Suc n) st c a w = (out, t, w')"
  obtains
    (no_cuda) "cuda c" "out = Returned False" "t = [CudaIsAvailable False]"
  | (registered) t0 where "t0 = (if cuda c then [CudaIsAvailable True] else [])"
      "out = Returned True" "t = t0 @ [CreatePow None, IsHotkeyRegistered True]"
  | (retry) t0 w2 tr where "t0 = (if cuda c then [CudaIsAvailable True] else [])"
      "a < max_allowed_attempts c" "register_loop n st c (a + 1) w2 = (out, tr, w')"
      "t = t0 @ [CreatePow None, IsHotkeyRegistered False] @ tr"
  | (exhausted) t0 where "t0 = (if cuda c then [CudaIsAvailable True] else [])"
      "\<not> a < max_allowed_attempts c" "out = Returned False"
      "t = t0 @ [CreatePow None, IsHotkeyRegistered False]"
  | (submitted) t0 p w1 x ts where "t0 = (if cuda c then [CudaIsAvailable True] else [])"
      "submit_loop n st p w1 = (x, ts, w')" "x \<noteq> Stale"
      "out = (case x of Return b \<Rightarrow> Returned b | Raise e \<Rightarrow> Raised e | _ \<Rightarrow> Unfinished a)"
      "t = t0 @ CreatePow (Some p) # ts"
  | (stale) t0 p w1 ts w2 tr where "t0 = (if cuda c then [CudaIsAvailable True] else [])"
      "submit_loop n st p w1 = (Stale, ts, w2)" "register_loop n st c a w2 = (out, tr, w')"
      "t = t0 @ CreatePow (Some p) # ts @ tr"
proof -
  obtain ok t0 w0 where cc: "cuda_check st c w = (ok, t0, w0)"
    by (cases "cuda_check st c w")
  show thesis
  proof (cases ok)
    case False
    with cc have "cuda c" "t0 = [CudaIsAvailable False]"
      by (auto simp: cuda_check_def split: if_splits prod.splits)
    with assms cc False show thesis by (intro no_cuda) simp_all
  next
    case True
    with cc have t0: "t0 = (if cuda c then [CudaIsAvailable True] else [])"
      by (auto simp: cuda_check_def split: if_splits prod.splits)
    obtain pow_result w1 where cp: "create_pow st w0 = (pow_result, w1)"
      by (cases "create_pow st w0")
    show thesis
    proof (cases pow_result)
      case None
      obtain r w2 where hr: "is_hotkey_registered st w1 = (r, w2)"
        by (cases "is_hotkey_registered st w1")
      show thesis
      proof (cases r)
        case True
        with assms cc \<open>ok\<close> cp None hr show thesis by (intro registered[OF t0]) simp_all
      next
        case nr: False
        show thesis
        proof (cases "a < max_allowed_attempts c")
          case True
          with assms cc \<open>ok\<close> cp None hr nr obtain tr where
            "register_loop n st c (a + 1) w2 = (out, tr, w')"
            "t = t0 @ [CreatePow None, IsHotkeyRegistered False] @ tr" by auto
          then show thesis by (rule retry[OF t0 True])
        next
          case False
          with assms cc \<open>ok\<close> cp None hr nr show thesis
            by (intro exhausted[OF t0 False]) simp_all
        qed
      qed
    next
      case (Some p)
      obtain x ts w2 where sl: "submit_loop n st p w1 = (x, ts, w2)"
        by (cases "submit_loop n st p w1")
      show thesis
      proof (cases "x = Stale")
        case True
        with assms cc \<open>ok\<close> cp Some sl obtain tr where
          "register_loop n st c a w2 = (out, tr, w')" "t = t0 @ CreatePow (Some p) # ts @ tr"
          by auto
        with sl True show thesis by (intro stale[OF t0, of p w1 ts w2 tr]) simp_all
      next
        case False
        with assms cc \<open>ok\<close> cp Some sl have
          "w2 = w'" "t = t0 @ CreatePow (Some p) # ts"
          "out = (case x of Return b \<Rightarrow> Returned b | Raise e \<Rightarrow> Raised e | _ \<Rightarrow> Unfinished a)"
          by (auto split: submit_exit.splits)
        with sl False show thesis by (intro submitted[OF t0, of p w1 x ts]) simp_all
      qed
    qed
  qed
qed

text \<open>The ways through \<^verbatim>\<open>register_extrinsic\<close> before its loop.\<close>

lemma register_extrinsic_cases:
  assumes "register_extrinsic fuel st c w = (out, t, w')"
  obtains
    (no_subnet) "out = Returned False" "t = [SubnetExists False]"
  | (known) "out = Returned True" "t = [SubnetExists True, GetNeuron False]"
  | (declined) "prompt c" "out = Returned False"
      "t = [SubnetExists True, GetNeuron True, ConfirmAsk False]"
  | (no_torch) t0 where "t0 = (if prompt c then [ConfirmAsk True] else [])" "\<not> torch c"
      "out = Returned False" "t = [SubnetExists True, GetNeuron True] @ t0"
  | (loop) t0 w3 tr where "t0 = (if prompt c then [ConfirmAsk True] else [])" "torch c"
      "register_loop fuel st c 1 w3 = (out, tr, w')"
      "t = [SubnetExists True, GetNeuron True] @ t0 @ tr"
  using assms
  by (auto simp: register_extrinsic_def ask_if_def split: prod.splits if_splits)

lemma register_loop_already:
  "register_loop n st c a w = (out, t, w') \<Longrightarrow>
    final_only already t \<and> (out \<noteq> Returned True \<longrightarrow> (\<forall>e\<in>set t. \<not> already e))"
proof (induction n arbitrary: a w out t w')
  case 0
  then show ?case by auto
next
  case (Suc n)
  from Suc.prems show ?case
  proof (cases rule: register_loop_SucE)
    case (retry t0 w2 tr)
    from Suc.IH[OF retry(3)] retry(1,4) show ?thesis by (auto simp: final_only_append)
  next
    case (submitted t0 p w1 x ts)
    from submit_loop_already[OF submitted(2)] submitted(1,3,4,5) show ?thesis
      by (cases x) (auto simp: final_only_append)
  next
    case (stale t0 p w1 ts w2 tr)
    from submit_loop_already[OF stale(2)] Suc.IH[OF stale(3)] stale(1,4) show ?thesis
      by (auto simp: final_only_append)
  qed auto
qed


lemma final_only_each:
  "final_only P t \<longleftrightarrow> each_followed (\<lambda>e post. P e \<longrightarrow> post = []) t"
  by (auto simp: final_only_def each_followed_def)

lemma resolve_next_other [simp]: "\<not> is_expiry e \<Longrightarrow> resolve_next gpu off e post"
  by (simp add: resolve_next_def)

lemma each_followed_none:
  "\<forall>e\<in>set t. \<not> is_expiry e \<Longrightarrow> each_followed (resolve_next gpu off) t"
  by (auto simp: each_followed_def resolve_next_def)

lemma submit_loop_expiry:
  "submit_loop n st p w = (x, t, w') \<Longrightarrow>
    final_only is_expiry t \<and> (x \<noteq> Stale \<longrightarrow> (\<forall>e\<in>set t. \<not> is_expiry e))"
proof (induction n arbitrary: w x t w')
  case 0
  then show ?case by auto
next
  case (Suc n)
  from Suc.prems show ?case
    by (auto split: prod.splits if_splits option.splits dest!: Suc.IH)
qed

lemma register_loop_counter:
  "register_loop n st c a w = (out, t, w') \<Longrightarrow>
    (\<forall>a'. out = Unfinished a' \<longrightarrow> a' = a + int (fails t)) \<and>
    (out = Returned False \<longrightarrow>
       CudaIsAvailable False \<in> set t
       \<or> 0 < fails t \<and> max_allowed_attempts c < a + int (fails t))"
proof (induction n arbitrary: a w out t w')
  case 0
  then show ?case by auto
next
  case (Suc n)
  from Suc.prems show ?case
  proof (cases rule: register_loop_SucE)
    case no_cuda
    then show ?thesis by simp
  next
    case (registered t0)
    then show ?thesis by simp
  next
    case (retry t0 w2 tr)
    have f: "fails t = Suc (fails tr)"
      and m: "CudaIsAvailable False \<in> set t \<longleftrightarrow> CudaIsAvailable False \<in> set tr"
      using retry(1,4) by simp_all
    from Suc.IH[OF retry(3)] show ?thesis
      unfolding f m by (auto simp: algebra_simps)
  next
    case (exhausted t0)
    have "fails t = Suc 0" using exhausted(1,4) by simp
    with exhausted(2,3) show ?thesis by simp
  next
    case (submitted t0 p w1 x ts)
    from submit_loop_no_solve[OF submitted(2)] have "fails ts = 0" "x \<noteq> Return False"
      by simp_all
    moreover from this submitted(1,5) have "fails t = 0" by simp
    ultimately show ?thesis using submitted(3,4) by (cases x) simp_all
  next
    case (stale t0 p w1 ts w2 tr)
    from submit_loop_no_solve[OF stale(2)] have "fails ts = 0" by simp
    with stale(1,4) have f: "fails t = fails tr" by simp
    have m: "CudaIsAvailable False \<in> set tr \<Longrightarrow> CudaIsAvailable False \<in> set t"
      using stale(4) by simp
    from Suc.IH[OF stale(3)] m show ?thesis
      unfolding f by blast
  qed
qed

lemma register_loop_resolve:
  "register_loop n st c a w = (out, t, w') \<Longrightarrow>
    each_followed (resolve_next (cuda c) (\<exists>a'. out = Unfinished a')) t
    \<and> solve_first (cuda c) (\<exists>a'. out = Unfinished a') t"
proof (induction n arbitrary: a w out t w')
  case 0
  then show ?case by (auto simp: solve_first_def)
next
  case (Suc n)
  let ?F = "resolve_next (cuda c) (\<exists>a'. out = Unfinished a')"
  from Suc.prems show ?case
  proof (cases rule: register_loop_SucE)
    case (retry t0 w2 tr)
    from Suc.IH[OF retry(3)] retry(1,4) show ?thesis
      by (auto simp: solve_first_def)
  next
    case (submitted t0 p w1 x ts)
    from submit_loop_expiry[OF submitted(2)] submitted(3)
    have "each_followed ?F ts" by (intro each_followed_none) simp
    with submitted(1,5) show ?thesis
      by (auto simp: solve_first_def)
  next
    case (stale t0 p w1 ts w2 tr)
    from submit_loop_expiry[OF stale(2)]
    have ts: "each_followed (\<lambda>e post. is_expiry e \<longrightarrow> post = []) ts"
      by (simp add: final_only_each)
    from Suc.IH[OF stale(3)] have tr: "each_followed ?F tr"
      and hd: "solve_first (cuda c) (\<exists>a'. out = Unfinished a') tr" by simp_all
    have "each_followed ?F (ts @ tr)"
      using ts tr by (rule each_followed_append) (auto simp: resolve_next_def hd)
    with stale(1,4) show ?thesis
      by (auto simp: solve_first_def)
  qed (auto simp: solve_first_def)
qed

lemma register_loop_no_solution:
  assumes "\<forall>w. fst (create_pow st w) = None"
      and "\<forall>w. \<not> fst (is_hotkey_registered st w)"
      and "cuda c \<longrightarrow> (\<forall>w. fst (cuda_is_available st w))"
    shows "nat (max_allowed_attempts c - a) < fuel \<Longrightarrow>
      \<exists>t w'. register_loop fuel st c a w = (Returned False, t, w')
        \<and> solves t = Suc (nat (max_allowed_attempts c - a))"
proof (induction fuel arbitrary: a w)
  case 0
  then show ?case by simp
next
  case (Suc n)
  obtain ok t0 w0 where cc: "cuda_check st c w = (ok, t0, w0)"
    by (cases "cuda_check st c w")
  have ok: "ok" and t0: "solves t0 = 0"
    using cc assms(3) by (auto simp: cuda_check_def split: if_splits prod.splits dest: fstI)
  obtain pr w1 where cp0: "create_pow st w0 = (pr, w1)"
    by (cases "create_pow st w0")
  with assms(1) have cp: "create_pow st w0 = (None, w1)"
    by (auto dest: fstI)
  obtain r w2 where hr0: "is_hotkey_registered st w1 = (r, w2)"
    by (cases "is_hotkey_registered st w1")
  with assms(2) have hr: "is_hotkey_registered st w1 = (False, w2)"
    by (auto dest: fstI)
  show ?case
  proof (cases "a < max_allowed_attempts c")
    case True
    then have "nat (max_allowed_attempts c - (a + 1)) < n" using Suc.prems by linarith
    from Suc.IH[OF this, of w2] obtain t w' where
      r: "register_loop n st c (a + 1) w2 = (Returned False, t, w')"
      and s: "solves t = Suc (nat (max_allowed_attempts c - (a + 1)))" by blast
    have "Suc (solves t) = Suc (nat (max_allowed_attempts c - a))" using s True by linarith
    then show ?thesis using cc ok t0 cp hr True r by simp
  next
    case False
    then show ?thesis using cc ok t0 cp hr by simp
  qed
qed

lemma register_loop_rejected:
  assumes "\<forall>w. fst (create_pow st w) \<noteq> None"
      and "\<forall>p w. \<exists>msg. fst (do_pow_register st p w) = (False, Some msg)
            \<and> \<not> str_in ''key is already registered'' msg"
      and "cuda c \<longrightarrow> (\<forall>w. fst (cuda_is_available st w))"
    shows "\<exists>t w'. register_loop fuel st c a w = (Unfinished a, t, w')"
proof (induction fuel arbitrary: w)
  case 0
  then show ?case by simp
next
  case (Suc n)
  obtain ok t0 w0 where cc: "cuda_check st c w = (ok, t0, w0)"
    by (cases "cuda_check st c w")
  have ok: "ok"
    using cc assms(3) by (auto simp: cuda_check_def split: if_splits prod.splits dest: fstI)
  obtain pr w1 where cp0: "create_pow st w0 = (pr, w1)"
    by (cases "create_pow st w0")
  from assms(1) have "fst (create_pow st w0) \<noteq> None" by blast
  with cp0 obtain p where cp: "create_pow st w0 = (Some p, w1)"
    by (cases pr) simp_all
  obtain x t w2 where sl: "submit_loop n st p w1 = (x, t, w2)"
    by (cases "submit_loop n st p w1")
  from submit_loop_rejected[OF assms(2) sl] Suc.IH[of w2] show ?case
    using cc ok cp sl by auto
qed

subsection \<open>The faucet loop\<close>

lemma successes_simps [simp]:
  "successes [] = 0"
  "successes (e # es) = (if is_success e then Suc (successes es) else successes es)"
  "successes (xs @ ys) = successes xs + successes ys"
  by (simp_all add: successes_def)

lemma failures_simps [simp]:
  "failures [] = 0"
  "failures (e # es) = (if is_failure e then Suc (failures es) else failures es)"
  "failures (xs @ ys) = failures xs + failures ys"
  by (simp_all add: failures_def)

lemma no_submit_counts:
  "\<forall>e\<in>set t. \<not> is_submit e \<Longrightarrow> successes t = 0 \<and> failures t = 0"
proof (induction t)
  case Nil
  then show ?case by simp
next
  case (Cons e es)
  then show ?case by (cases e) simp_all
qed

declare str_nat.simps [simp del]

lemma faucet_solve_quiet:
  "faucet_solve n fc c pow_result w = (x, t, w') \<Longrightarrow>
    (\<forall>e\<in>set t. \<not> is_submit e)
    \<and> (\<forall>r. x = Leave r \<longrightarrow> r = (True, ''Done'') \<or> r = (False, ''CUDA is not available.''))"
proof (induction n arbitrary: pow_result w x t w')
  case 0
  then show ?case by auto
next
  case (Suc n)
  from Suc.prems show ?case
    by (auto simp: missing_or_stale_def
        split: prod.splits if_splits option.splits interruptible.splits dest!: Suc.IH)
qed

text \<open>The ways through one iteration of the loop of lines 386 to 466.\<close>

lemma faucet_loop_SucE:
  assumes "faucet_loop (Suc n) fc c a s w = (out, t, w')"
  obtains
    (cut) "out = Unfinished (a, s)" "\<forall>e\<in>set t. \<not> is_submit e"
  | (leave) "out = Returned (True, ''Done'') \<or> out = Returned (False, ''CUDA is not available.'')"
      "\<forall>e\<in>set t. \<not> is_submit e"
  | (interrupted) ts where "\<forall>e\<in>set ts. \<not> is_submit e"
      "out = Returned (True, ''Done'')" "t = ts @ [Interrupt]"
  | (max_attempts) ts p where "\<forall>e\<in>set ts. \<not> is_submit e" "a = max_allowed_attempts c"
      "out = max_attempts c" "t = ts @ [SubmitExtrinsic p False]"
  | (failed) ts p w2 tr where "\<forall>e\<in>set ts. \<not> is_submit e" "a \<noteq> max_allowed_attempts c"
      "faucet_loop n fc c (a + 1) s w2 = (out, tr, w')" "t = ts @ SubmitExtrinsic p False # tr"
  | (interrupted_balance) ts p where "\<forall>e\<in>set ts. \<not> is_submit e"
      "out = Returned (True, ''Done'')" "t = ts @ [SubmitExtrinsic p True, Interrupt]"
  | (max_successes) ts p b where "\<forall>e\<in>set ts. \<not> is_submit e" "s = 3"
      "out = max_successes" "t = ts @ [SubmitExtrinsic p True, GetBalance b]"
  | (succeeded) ts p b w3 tr where "\<forall>e\<in>set ts. \<not> is_submit e" "s \<noteq> 3"
      "faucet_loop n fc c a (s + 1) w3 = (out, tr, w')"
      "t = ts @ SubmitExtrinsic p True # GetBalance b # tr"
proof -
  obtain x ts w1 where fs: "faucet_solve n fc c None w = (x, ts, w1)"
    by (cases "faucet_solve n fc c None w")
  from faucet_solve_quiet[OF fs] have q: "\<forall>e\<in>set ts. \<not> is_submit e"
    and l: "\<And>r. x = Leave r \<Longrightarrow> r = (True, ''Done'') \<or> r = (False, ''CUDA is not available.'')"
    by simp_all
  show thesis
  proof (cases x)
    case Cut
    with assms fs have "out = Unfinished (a, s)" "t = ts" by auto
    with q show thesis by (intro cut) simp_all
  next
    case (Leave r)
    with assms fs have "out = Returned r" "t = ts" by auto
    with q l[OF Leave] show thesis by (intro leave) auto
  next
    case (Fresh p)
    obtain res w2 where sub: "fc_submit_extrinsic fc p w1 = (res, w2)"
      by (cases "fc_submit_extrinsic fc p w1")
    show thesis
    proof (cases res)
      case KeyboardInterrupt
      with assms fs Fresh sub have "out = Returned (True, ''Done'')" "t = ts @ [Interrupt]"
        by auto
      then show thesis by (rule interrupted[OF q])
    next
      case res: (Value ok)
      show thesis
      proof (cases ok)
        case False
        show thesis
        proof (cases "a = max_allowed_attempts c")
          case True
          with assms fs Fresh sub res False have "out = max_attempts c"
            "t = ts @ [SubmitExtrinsic p False]"
            by (auto simp: max_attempts_def)
          then show thesis by (rule max_attempts[OF q True])
        next
          case ne: False
          with assms fs Fresh sub res False obtain tr where
            "faucet_loop n fc c (a + 1) s w2 = (out, tr, w')"
            "t = ts @ SubmitExtrinsic p False # tr" by auto
          then show thesis by (rule failed[OF q ne])
        qed
      next
        case True
        obtain bal w3 where nb: "fc_new_balance fc w2 = (bal, w3)"
          by (cases "fc_new_balance fc w2")
        show thesis
        proof (cases bal)
          case KeyboardInterrupt
          with assms fs Fresh sub res True nb have "out = Returned (True, ''Done'')"
            "t = ts @ [SubmitExtrinsic p True, Interrupt]" by auto
          then show thesis by (rule interrupted_balance[OF q])
        next
          case bal: (Value b)
          show thesis
          proof (cases "s = 3")
            case three: True
            with assms fs Fresh sub res True nb bal have "out = max_successes"
              "t = ts @ [SubmitExtrinsic p True, GetBalance b]"
              by (auto simp: max_successes_def)
            then show thesis by (rule max_successes[OF q three])
          next
            case ne: False
            with assms fs Fresh sub res True nb bal obtain tr where
              "faucet_loop n fc c a (s + 1) w3 = (out, tr, w')"
              "t = ts @ SubmitExtrinsic p True # GetBalance b # tr" by auto
            then show thesis by (rule succeeded[OF q ne])
          qed
        qed
      qed
    qed
  qed
qed

lemma ends_with_refl [simp]: "ends_with s s"
  unfolding ends_with_def by (rule exI[of _ "[]"]) simp

lemma ends_with_same [simp]: "ends_with s (xs @ s)"
  unfolding ends_with_def by blast

lemma ends_with_Cons [intro]: "ends_with s t \<Longrightarrow> ends_with s (e # t)"
  unfolding ends_with_def by (metis append_Cons)

lemma ends_with_append [intro]: "ends_with s t \<Longrightarrow> ends_with s (xs @ t)"
  unfolding ends_with_def by (metis append_assoc)

lemma faucet_loop_successes:
  assumes "faucet_loop n fc c a s w = (out, t, w')" and "s \<le> 3"
  shows "int (successes t) + s \<le> 4
    \<and> (int (successes t) + s = 4 \<longrightarrow>
          (\<exists>p b. ends_with [SubmitExtrinsic p True, GetBalance b] t) \<and> out = max_successes
          \<or> (\<exists>p. ends_with [SubmitExtrinsic p True, Interrupt] t)
              \<and> out = Returned (True, ''Done''))
    \<and> (out = max_successes \<longrightarrow> int (successes t) + s = 4)"
  using assms
proof (induction n arbitrary: a s w out t w')
  case 0
  then show ?case by (auto simp: max_successes_def)
next
  case (Suc n)
  from Suc.prems(1) show ?case
  proof (cases rule: faucet_loop_SucE)
    case cut
    with no_submit_counts[OF cut(2)] Suc.prems(2) show ?thesis
      by (simp add: max_successes_def)
  next
    case leave
    with no_submit_counts[OF leave(2)] Suc.prems(2) show ?thesis
      by (auto simp: max_successes_def)
  next
    case (interrupted ts)
    with no_submit_counts[OF interrupted(1)] Suc.prems(2) show ?thesis
      by (simp add: max_successes_def)
  next
    case (max_attempts ts p)
    with no_submit_counts[OF max_attempts(1)] Suc.prems(2) show ?thesis
      by (simp add: max_successes_def max_attempts_def)
  next
    case (failed ts p w2 tr)
    have e: "successes t = successes tr"
      using no_submit_counts[OF failed(1)] failed(4) by simp
    have mono: "\<And>s. ends_with s tr \<Longrightarrow> ends_with s t"
      unfolding failed(4) by auto
    from Suc.IH[OF failed(3) Suc.prems(2)] mono show ?thesis
      unfolding e by blast
  next
    case (interrupted_balance ts p)
    have "successes t = 1"
      using no_submit_counts[OF interrupted_balance(1)] interrupted_balance(3) by simp
    moreover have "\<exists>q. ends_with [SubmitExtrinsic q True, Interrupt] t"
      unfolding interrupted_balance(3) by (rule exI[of _ p]) simp
    ultimately show ?thesis using interrupted_balance(2) Suc.prems(2)
      by (simp add: max_successes_def)
  next
    case (max_successes ts p b)
    have "successes t = 1"
      using no_submit_counts[OF max_successes(1)] max_successes(4) by simp
    moreover have "\<exists>q b. ends_with [SubmitExtrinsic q True, GetBalance b] t"
      unfolding max_successes(4) by (intro exI[of _ p] exI[of _ b]) simp
    ultimately show ?thesis using max_successes(2,3) by simp
  next
    case (succeeded ts p b w3 tr)
    have "successes t = Suc (successes tr)"
      using no_submit_counts[OF succeeded(1)] succeeded(4) by simp
    then have e: "int (successes t) + s = int (successes tr) + (s + 1)" by simp
    have mono: "\<And>s. ends_with s tr \<Longrightarrow> ends_with s t"
      unfolding succeeded(4) by auto
    have "s + 1 \<le> 3" using succeeded(2) Suc.prems(2) by simp
    from Suc.IH[OF succeeded(3) this] mono show ?thesis
      unfolding e by blast
  qed
qed

lemma faucet_loop_failures:
  assumes "faucet_loop n fc c a s w = (out, t, w')"
  shows "(out = max_attempts c \<longrightarrow> int (failures t) + a = max_allowed_attempts c + 1)
    \<and> (a \<le> max_allowed_attempts c \<longrightarrow>
          int (failures t) + a \<le> max_allowed_attempts c + 1
          \<and> (int (failures t) + a = max_allowed_attempts c + 1 \<longrightarrow>
                out = max_attempts c \<and> (\<exists>p. ends_with [SubmitExtrinsic p False] t)))"
  using assms
proof (induction n arbitrary: a s w out t w')
  case 0
  then show ?case by (auto simp: max_attempts_def)
next
  case (Suc n)
  from Suc.prems(1) show ?case
  proof (cases rule: faucet_loop_SucE)
    case cut
    with no_submit_counts[OF cut(2)] show ?thesis
      by (simp add: max_attempts_def)
  next
    case leave
    with no_submit_counts[OF leave(2)] show ?thesis
      by (auto simp: max_attempts_def)
  next
    case (interrupted ts)
    with no_submit_counts[OF interrupted(1)] show ?thesis
      by (simp add: max_attempts_def)
  next
    case (max_attempts ts p)
    have "failures t = 1"
      using no_submit_counts[OF max_attempts(1)] max_attempts(4) by simp
    moreover have "\<exists>q. ends_with [SubmitExtrinsic q False] t"
      unfolding max_attempts(4) by (rule exI[of _ p]) simp
    ultimately show ?thesis using max_attempts(2,3) by simp
  next
    case (failed ts p w2 tr)
    have "failures t = Suc (failures tr)"
      using no_submit_counts[OF failed(1)] failed(4) by simp
    then have e: "int (failures t) + a = int (failures tr) + (a + 1)" by simp
    have mono: "\<And>s. ends_with s tr \<Longrightarrow> ends_with s t"
      unfolding failed(4) by auto
    have "a \<le> max_allowed_attempts c \<Longrightarrow> a + 1 \<le> max_allowed_attempts c"
      using failed(2) by simp
    with Suc.IH[OF failed(3)] mono show ?thesis
      unfolding e by blast
  next
    case (interrupted_balance ts p)
    have "failures t = 0"
      using no_submit_counts[OF interrupted_balance(1)] interrupted_balance(3) by simp
    with interrupted_balance(2) show ?thesis
      by (simp add: max_attempts_def)
  next
    case (max_successes ts p b)
    have "failures t = 0"
      using no_submit_counts[OF max_successes(1)] max_successes(4) by simp
    with max_successes(3) show ?thesis
      by (simp add: max_attempts_def max_successes_def)
  next
    case (succeeded ts p b w3 tr)
    have e: "failures t = failures tr"
      using no_submit_counts[OF succeeded(1)] succeeded(4) by simp
    have mono: "\<And>s. ends_with s tr \<Longrightarrow> ends_with s t"
      unfolding succeeded(4) by auto
    from Suc.IH[OF succeeded(3)] mono show ?thesis
      unfolding e by blast
  qed
qed

text \<open>The ways through \<^verbatim>\<open>run_faucet_extrinsic\<close> before its loop.\<close>

lemma run_faucet_extrinsic_cases:
  fixes fc :: "('w, 'p) faucet_client"
  assumes "run_faucet_extrinsic fuel fc c w = (out, t, w')"
  obtains
    (declined) "out = Returned (False, [])" "t = [ConfirmAsk False]"
  | (no_torch) "out = Returned (False, ''Requires torch'')" "\<forall>e\<in>set t. \<not> is_submit e"
  | (loop) t0 w2 tr where "\<forall>e\<in>set t0. \<not> is_submit e"
      "faucet_loop fuel fc c 1 1 w2 = (out, tr, w')" "t = t0 @ tr"
proof -
  obtain yes and t1 :: "'p event list" and w1
    where ask: "ask_if (prompt c) (fc_confirm_ask fc) w = (yes, t1, w1)"
    using prod_cases3 by blast
  then have t1: "t1 = (if prompt c then [ConfirmAsk yes] else [])" and p: "\<not> yes \<Longrightarrow> prompt c"
    by (auto simp: ask_if_def split: if_splits prod.splits)
  obtain ob w2 where old: "fc_old_balance fc w1 = (ob, w2)"
    by (cases "fc_old_balance fc w1")
  from assms ask old consider
      (a) "\<not> yes" "out = Returned (False, [])" "t = t1"
    | (b) "yes" "\<not> torch c" "out = Returned (False, ''Requires torch'')" "t = t1"
    | (c) tr where "faucet_loop fuel fc c 1 1 w2 = (out, tr, w')" "t = t1 @ GetBalance ob # tr"
    by (auto simp: run_faucet_extrinsic_def split: if_splits)
  then show thesis
  proof cases
    case a
    with t1 p show ?thesis by (intro declined) auto
  next
    case b
    with t1 show ?thesis by (intro no_torch) auto
  next
    case c
    have "\<forall>e\<in>set (t1 @ [GetBalance ob]). \<not> is_submit e"
      using t1 by simp
    with c show ?thesis by (intro loop[of "t1 @ [GetBalance ob]" w2 tr]) simp_all
  qed
qed

section \<open>The claims\<close>

text \<open>
  C3.  When the subnet exists and the hotkey is already registered on it,
  \<^verbatim>\<open>register_extrinsic\<close> returns \<^verbatim>\<open>True\<close> after its two queries: the solver is
  not invoked and nothing is submitted, whatever the fuel and the configuration.
  The second of two calls in sequence is this case, taken at the world the first
  call left registered.
\<close>

theorem register_short_circuit:
  assumes "subnet_exists st w = (True, w1)" and "neuron_is_null st w1 = (False, w2)"
  shows "register_extrinsic fuel st c w = (Returned True, [SubnetExists True, GetNeuron False], w2)"
  using assms by (simp add: register_extrinsic_def)

theorem register_short_circuit_witness:
  "register_extrinsic (Suc (Suc 0)) accepting (plain 3) 0 =
     (Returned True,
      [SubnetExists True, GetNeuron True, CreatePow (Some ()), IsStale () False,
       DoPowRegister () True None, IsHotkeyRegistered True], 6)
   \<and> subnet_exists accepting 6 = (True, 7) \<and> neuron_is_null accepting 7 = (False, 8)
   \<and> register_extrinsic (Suc (Suc 0)) accepting (plain 3) 6 =
     (Returned True, [SubnetExists True, GetNeuron False], 8)"
proof -
  have first: "register_extrinsic (Suc (Suc 0)) accepting (plain 3) 0 =
     (Returned True,
      [SubnetExists True, GetNeuron True, CreatePow (Some ()), IsStale () False,
       DoPowRegister () True None, IsHotkeyRegistered True], 6)"
    by (simp add: register_extrinsic_def accepting_def scripted_def plain_def ask_if_def
        cuda_check_def)
  have h1: "subnet_exists accepting 6 = (True, 7)"
    by (simp add: accepting_def scripted_def)
  have h2: "neuron_is_null accepting 7 = (False, 8)"
    by (simp add: accepting_def scripted_def)
  from first h1 h2 register_short_circuit[OF h1 h2, of "Suc (Suc 0)" "plain 3"]
  show ?thesis by simp
qed

text \<open>
  C5.  A submission of \<^verbatim>\<open>register_extrinsic\<close> that fails with a message containing
  \<^verbatim>\<open>key is already registered\<close> is the last call of the run, and the run returns
  \<^verbatim>\<open>True\<close>: no solver invocation and no submission follows it.
\<close>

theorem register_already_registered_message:
  assumes "register_extrinsic fuel st c w =
            (out, pre @ DoPowRegister q False (Some msg) # post, w')"
      and "str_in ''key is already registered'' msg"
    shows "out = Returned True \<and> post = []"
proof -
  let ?e = "DoPowRegister q False (Some msg)"
  have e: "already ?e" using assms(2) by simp
  have "final_only already (pre @ ?e # post)
      \<and> (out \<noteq> Returned True \<longrightarrow> (\<forall>e\<in>set (pre @ ?e # post). \<not> already e))"
    using assms(1)
  proof (cases rule: register_extrinsic_cases)
    case (loop t0 w3 tr)
    from register_loop_already[OF loop(3)] loop(1,4) show ?thesis
      by (auto simp: final_only_append)
  qed (simp_all add: Cons_eq_append_conv)
  with e show ?thesis
    unfolding final_only_def by (metis in_set_conv_decomp)
qed

theorem register_already_registered_message_witness:
  "register_extrinsic (Suc (Suc 0)) taken (plain 3) 0 =
     (Returned True,
      [SubnetExists True, GetNeuron True, CreatePow (Some ()), IsStale () False]
       @ DoPowRegister () False (Some ''Hotkey: key is already registered'') # [], 5)
   \<and> str_in ''key is already registered'' ''Hotkey: key is already registered''
   \<and> fst (register_extrinsic (Suc (Suc 0)) taken (plain 3) 0) = Returned True"
proof -
  have run: "register_extrinsic (Suc (Suc 0)) taken (plain 3) 0 =
     (Returned True,
      [SubnetExists True, GetNeuron True, CreatePow (Some ()), IsStale () False]
       @ DoPowRegister () False (Some ''Hotkey: key is already registered'') # [], 5)"
    by (simp add: register_extrinsic_def taken_def scripted_def plain_def ask_if_def
        cuda_check_def)
  have msg: "str_in ''key is already registered'' ''Hotkey: key is already registered''"
    by simp
  from register_already_registered_message[OF run msg] run msg show ?thesis by simp
qed



text \<open>
  C10.  A submission that fails without a message: \<^verbatim>\<open>do_pow_register\<close> answers
  \<^verbatim>\<open>(False, None)\<close>, a value of its declared type \<^verbatim>\<open>Tuple[bool, Optional[str]]\<close>.
  The test \<^verbatim>\<open>"key is already registered" in err_msg\<close> of line 180 raises
  \<^verbatim>\<open>TypeError\<close>, which nothing catches: the call does not return a boolean.
\<close>

theorem register_failure_without_message:
  "register_extrinsic (Suc (Suc 0)) silent (plain 3) 0 =
     (Raised TypeError,
      [SubnetExists True, GetNeuron True, CreatePow (Some ()), IsStale () False,
       DoPowRegister () False None], 5)"
  by (simp add: register_extrinsic_def silent_def scripted_def plain_def ask_if_def
      cuda_check_def)

text \<open>
  C6.  As stated the claim fails: a fee submission rejected with a message that
  contains \<^verbatim>\<open>already registered\<close> makes \<^verbatim>\<open>burned_register_extrinsic\<close> return
  \<^verbatim>\<open>False\<close>.
\<close>

theorem burned_already_registered_counterexample:
  "str_in ''already registered'' ''Hotkey: key is already registered''
   \<and> burned_register_extrinsic taken (plain 3) 0 =
     (False,
      [SubnetExists True, GetNeuron True, GetBalance 0, Recycle 1,
       DoBurnedRegister False (Some ''Hotkey: key is already registered'')], 5)"
  by (simp add: burned_register_extrinsic_def taken_def scripted_def plain_def ask_if_def)

text \<open>
  C6, amended.  \<^verbatim>\<open>burned_register_extrinsic\<close> submits at most once, and a rejected
  submission, whatever its message, is the last call and makes the call return
  \<^verbatim>\<open>False\<close>.
\<close>

theorem burned_single_submission:
  assumes "burned_register_extrinsic st c w = (res, t, w')"
  shows "burns t \<le> 1 \<and> (t = pre @ DoBurnedRegister False m # post \<longrightarrow> \<not> res \<and> post = [])"
  using assms
  by (auto simp: burned_register_extrinsic_def ask_if_def Cons_eq_append_conv
        append_eq_Cons_conv split: prod.splits if_splits)

theorem burned_single_submission_witness:
  "burned_register_extrinsic taken (plain 3) 0 =
     (False,
      [SubnetExists True, GetNeuron True, GetBalance 0, Recycle 1]
       @ DoBurnedRegister False (Some ''Hotkey: key is already registered'') # [], 5)
   \<and> burns ([SubnetExists True, GetNeuron True, GetBalance 0, Recycle 1]
       @ DoBurnedRegister False (Some ''Hotkey: key is already registered'') # []
         :: unit event list) \<le> 1"
proof -
  have run: "burned_register_extrinsic taken (plain 3) 0 =
     (False,
      [SubnetExists True, GetNeuron True, GetBalance 0, Recycle 1]
       @ DoBurnedRegister False (Some ''Hotkey: key is already registered'') # [], 5)"
    by (simp add: burned_register_extrinsic_def taken_def scripted_def plain_def ask_if_def)
  from burned_single_submission[OF run] run show ?thesis by simp
qed

text \<open>
  C7.  As stated the claim fails: with \<^verbatim>\<open>max_allowed_attempts = 3\<close>, a solver that
  reports no solution and a hotkey that is not registered, the solver is invoked
  three times before \<^verbatim>\<open>register_extrinsic\<close> returns \<^verbatim>\<open>False\<close>.
\<close>

theorem no_solution_is_retried_counterexample:
  "register_extrinsic (Suc (Suc (Suc 0))) unsolved (plain 3) 0 =
     (Returned False,
      [SubnetExists True, GetNeuron True,
       CreatePow None, IsHotkeyRegistered False,
       CreatePow None, IsHotkeyRegistered False,
       CreatePow None, IsHotkeyRegistered False], 8)"
  by (simp add: register_extrinsic_def unsolved_def scripted_def plain_def ask_if_def
      cuda_check_def)

text \<open>
  C7, amended.  A solve that gives no solution while the hotkey is not registered
  counts as one attempt and is retried while the counter is below
  \<^verbatim>\<open>max_allowed_attempts\<close>: when the solver never gives a solution and the hotkey is
  never registered, \<^verbatim>\<open>register_extrinsic\<close> returns \<^verbatim>\<open>False\<close> after exactly
  \<open>max 1 max_allowed_attempts\<close> invocations of the solver.
\<close>

theorem no_solution_counts_as_attempt:
  fixes st :: "('w, 'p) subtensor"
  assumes "subnet_exists st w = (True, w1)" and "neuron_is_null st w1 = (True, w2)"
      and "prompt c \<longrightarrow> (\<forall>w. fst (confirm_ask st w))" and "torch c"
      and "cuda c \<longrightarrow> (\<forall>w. fst (cuda_is_available st w))"
      and "\<forall>w. fst (create_pow st w) = None"
      and "\<forall>w. \<not> fst (is_hotkey_registered st w)"
      and "nat (max 1 (max_allowed_attempts c)) \<le> fuel"
    shows "\<exists>t w'. register_extrinsic fuel st c w = (Returned False, t, w')
            \<and> solves t = nat (max 1 (max_allowed_attempts c))"
proof -
  obtain yes and t3 :: "'p event list" and w3
    where ask: "ask_if (prompt c) (confirm_ask st) w2 = (yes, t3, w3)"
    using prod_cases3 by blast
  with assms(3) have yes: "yes" and t3: "solves t3 = 0"
    by (auto simp: ask_if_def split: if_splits prod.splits dest: fstI)
  have "nat (max_allowed_attempts c - 1) < fuel" using assms(8) by linarith
  from register_loop_no_solution[OF assms(6,7,5) this, of w3] obtain t w' where
    loop: "register_loop fuel st c 1 w3 = (Returned False, t, w')"
    and s: "solves t = Suc (nat (max_allowed_attempts c - 1))" by blast
  have "Suc (nat (max_allowed_attempts c - 1)) = nat (max 1 (max_allowed_attempts c))"
    by linarith
  with assms(1,2,4) ask yes t3 loop s show ?thesis
    by (simp add: register_extrinsic_def)
qed

theorem no_solution_counts_as_attempt_witness:
  "subnet_exists unsolved 0 = (True, 1) \<and> neuron_is_null unsolved 1 = (True, 2)
   \<and> \<not> prompt (plain 3) \<and> torch (plain 3) \<and> \<not> cuda (plain 3)
   \<and> (\<forall>w. fst (create_pow unsolved w) = None)
   \<and> (\<forall>w. \<not> fst (is_hotkey_registered unsolved w))
   \<and> (\<exists>t w'. register_extrinsic 3 unsolved (plain 3) 0 = (Returned False, t, w')
        \<and> solves t = 3)"
proof -
  have h: "subnet_exists unsolved 0 = (True, 1)" "neuron_is_null unsolved 1 = (True, 2)"
    "\<not> prompt (plain 3)" "torch (plain 3)" "\<not> cuda (plain 3)"
    "\<forall>w. fst (create_pow unsolved w) = None"
    "\<forall>w. \<not> fst (is_hotkey_registered unsolved w)"
    by (simp_all add: unsolved_def scripted_def plain_def)
  have m: "nat (max 1 (max_allowed_attempts (plain 3))) = 3"
    by (simp add: plain_def)
  have "\<exists>t w'. register_extrinsic 3 unsolved (plain 3) 0 = (Returned False, t, w')
        \<and> solves t = nat (max 1 (max_allowed_attempts (plain 3)))"
    using h m by (intro no_solution_counts_as_attempt[of unsolved 0 1 2]) simp_all
  with h show ?thesis unfolding m by blast
qed

text \<open>
  C1.  As stated the claim fails: with \<^verbatim>\<open>max_allowed_attempts = 2\<close>, a solver that
  always returns a solution and a chain that rejects every submission with a
  generic message, three cycles of solve and submit have been made, no value has
  been returned and the attempt counter is still 1.
\<close>

theorem rejected_submissions_counterexample:
  "register_extrinsic (Suc (Suc (Suc (Suc 0)))) rejecting (plain 2) 0 =
     (Unfinished 1,
      [SubnetExists True, GetNeuron True,
       CreatePow (Some ()), IsStale () False,
       DoPowRegister () False (Some ''Invalid work''), IsStale () True,
       CreatePow (Some ()), IsStale () False,
       DoPowRegister () False (Some ''Invalid work''), IsStale () True,
       CreatePow (Some ()), IsStale () False,
       DoPowRegister () False (Some ''Invalid work'')], 13)"
  by (simp add: register_extrinsic_def rejecting_def scripted_def plain_def ask_if_def
      cuda_check_def)

text \<open>
  C1, amended.  When the subnet exists, the hotkey is not registered, the solver
  always returns a solution and every submission is rejected with a message that
  does not contain \<^verbatim>\<open>key is already registered\<close>, \<^verbatim>\<open>register_extrinsic\<close> does not
  return, whatever \<^verbatim>\<open>max_allowed_attempts\<close>: after any number of iterations the
  run is unfinished and its attempt counter is 1.  A rejected submission is
  followed by the next staleness check of the same solution, and a stale
  solution by a fresh solve; neither is counted.
\<close>

theorem rejected_submissions_are_not_counted:
  fixes st :: "('w, 'p) subtensor"
  assumes "subnet_exists st w = (True, w1)" and "neuron_is_null st w1 = (True, w2)"
      and "prompt c \<longrightarrow> (\<forall>w. fst (confirm_ask st w))" and "torch c"
      and "cuda c \<longrightarrow> (\<forall>w. fst (cuda_is_available st w))"
      and "\<forall>w. fst (create_pow st w) \<noteq> None"
      and "\<forall>p w. \<exists>msg. fst (do_pow_register st p w) = (False, Some msg)
            \<and> \<not> str_in ''key is already registered'' msg"
    shows "\<exists>t w'. register_extrinsic fuel st c w = (Unfinished 1, t, w')"
proof -
  obtain yes and t3 :: "'p event list" and w3
    where ask: "ask_if (prompt c) (confirm_ask st) w2 = (yes, t3, w3)"
    using prod_cases3 by blast
  with assms(3) have yes: "yes"
    by (auto simp: ask_if_def split: if_splits prod.splits dest: fstI)
  from register_loop_rejected[OF assms(6,7,5), of fuel 1 w3] obtain t w' where
    "register_loop fuel st c 1 w3 = (Unfinished 1, t, w')" by blast
  with assms(1,2,4) ask yes show ?thesis
    by (simp add: register_extrinsic_def)
qed

theorem rejected_submissions_are_not_counted_witness:
  "subnet_exists rejecting 0 = (True, 1) \<and> neuron_is_null rejecting 1 = (True, 2)
   \<and> \<not> prompt (plain 2) \<and> torch (plain 2) \<and> \<not> cuda (plain 2)
   \<and> (\<forall>w. fst (create_pow rejecting w) \<noteq> None)
   \<and> (\<forall>p w. fst (do_pow_register rejecting p w) = (False, Some ''Invalid work''))
   \<and> \<not> str_in ''key is already registered'' ''Invalid work''
   \<and> (\<exists>t w'. register_extrinsic 7 rejecting (plain 2) 0 = (Unfinished 1, t, w'))"
proof -
  have h: "subnet_exists rejecting 0 = (True, 1)" "neuron_is_null rejecting 1 = (True, 2)"
    "\<not> prompt (plain 2)" "torch (plain 2)" "\<not> cuda (plain 2)"
    "\<forall>w. fst (create_pow rejecting w) \<noteq> None"
    "\<forall>p w. fst (do_pow_register rejecting p w) = (False, Some ''Invalid work'')"
    "\<not> str_in ''key is already registered'' ''Invalid work''"
    by (simp_all add: rejecting_def scripted_def plain_def)
  from rejected_submissions_are_not_counted[of rejecting 0 1 2 "plain 2" 7, OF h(1,2)] h
  show ?thesis by simp
qed

text \<open>
  C4.  In a run of \<^verbatim>\<open>register_extrinsic\<close> in which every solve gave a solution, so
  that the loop went back to the solve step only because a solution was stale,
  the attempt counter is at its initial value 1 whenever the run is observed, the
  run has not returned \<^verbatim>\<open>False\<close> for lack of attempts (a \<^verbatim>\<open>False\<close> comes from the
  missing subnet, the declined prompt, the missing torch or CUDA), and every
  staleness check that finds the solution stale is followed by a fresh solve (after
  the CUDA check when \<^verbatim>\<open>cuda\<close> is set).
\<close>

theorem staleness_is_not_an_attempt:
  assumes "register_extrinsic fuel st c w = (out, t, w')"
      and "CreatePow None \<notin> set t"
    shows "(\<forall>a. out = Unfinished a \<longrightarrow> a = 1)
      \<and> (out = Returned False \<longrightarrow>
            SubnetExists False \<in> set t \<or> ConfirmAsk False \<in> set t \<or> \<not> torch c
            \<or> CudaIsAvailable False \<in> set t)
      \<and> (t = pre @ IsStale p True # post \<longrightarrow>
            post = [] \<and> (\<exists>a. out = Unfinished a)
            \<or> (\<exists>x rest. post = CreatePow x # rest)
            \<or> cuda c \<and> (post = [CudaIsAvailable False]
                        \<or> (\<exists>x rest. post = CudaIsAvailable True # CreatePow x # rest)))"
  using assms(1)
proof (cases rule: register_extrinsic_cases)
  case (loop t0 w3 tr)
  let ?off = "\<exists>a. out = Unfinished a"
  from assms(2) loop(4) have "fails tr = 0" by (simp add: fails_0)
  with register_loop_counter[OF loop(3)]
  have counter: "\<forall>a. out = Unfinished a \<longrightarrow> a = 1"
    and false: "out = Returned False \<longrightarrow> CudaIsAvailable False \<in> set tr" by simp_all
  have "each_followed (resolve_next (cuda c) ?off) ([SubnetExists True, GetNeuron True] @ t0 @ tr)"
    using register_loop_resolve[OF loop(3)] loop(1) by simp
  then have "t = pre @ IsStale p True # post \<longrightarrow> solve_first (cuda c) ?off post"
    unfolding loop(4) each_followed_def resolve_next_def by (metis is_expiry.simps(1))
  with counter false loop(4) show ?thesis
    unfolding solve_first_def by simp
qed (auto simp: Cons_eq_append_conv)

theorem staleness_is_not_an_attempt_witness:
  "register_extrinsic (Suc (Suc (Suc 0))) expiring (plain 3) 0 =
     (Unfinished 1,
      [SubnetExists True, GetNeuron True, CreatePow (Some ())]
       @ IsStale () True # [CreatePow (Some ()), IsStale () True, CreatePow (Some ())], 7)
   \<and> CreatePow None \<notin> set ([SubnetExists True, GetNeuron True, CreatePow (Some ())]
       @ IsStale () True # [CreatePow (Some ()), IsStale () True, CreatePow (Some ())])
   \<and> solves ([SubnetExists True, GetNeuron True, CreatePow (Some ())]
       @ IsStale () True # [CreatePow (Some ()), IsStale () True, CreatePow (Some ())]
         :: unit event list) = 3"
proof -
  have run: "register_extrinsic (Suc (Suc (Suc 0))) expiring (plain 3) 0 =
     (Unfinished 1,
      [SubnetExists True, GetNeuron True, CreatePow (Some ())]
       @ IsStale () True # [CreatePow (Some ()), IsStale () True, CreatePow (Some ())], 7)"
    by (simp add: register_extrinsic_def expiring_def scripted_def plain_def ask_if_def
        cuda_check_def)
  have none: "CreatePow None \<notin> set ([SubnetExists True, GetNeuron True, CreatePow (Some ())]
       @ IsStale () True # [CreatePow (Some ()), IsStale () True, CreatePow (Some ())]
         :: unit event list)"
    by simp
  from staleness_is_not_an_attempt[OF run none] run none show ?thesis by simp
qed

text \<open>
  C8.  A run of \<^verbatim>\<open>run_faucet_extrinsic\<close> never makes more than three successful
  submissions.  When it has made three, the third is its last submission and the
  run has ended right after it: with the balance query and the value
  \<^verbatim>\<open>(True, "Max successes reached: 3")\<close>, or, if that query was interrupted, with
  \<^verbatim>\<open>(True, "Done")\<close>.  The max-successes value is returned only then.
\<close>

theorem faucet_stops_at_third_success:
  assumes "run_faucet_extrinsic fuel fc c w = (out, t, w')"
  shows "successes t \<le> 3
    \<and> (successes t = 3 \<longrightarrow>
          (\<exists>pre p b. t = pre @ [SubmitExtrinsic p True, GetBalance b])
            \<and> out = Returned (True, ''Max successes reached: 3'')
          \<or> (\<exists>pre p. t = pre @ [SubmitExtrinsic p True, Interrupt])
            \<and> out = Returned (True, ''Done''))
    \<and> (out = Returned (True, ''Max successes reached: 3'') \<longrightarrow> successes t = 3)"
  using assms
proof (cases rule: run_faucet_extrinsic_cases)
  case declined
  then show ?thesis by simp
next
  case no_torch
  with no_submit_counts[OF no_torch(2)] show ?thesis by simp
next
  case (loop t0 w2 tr)
  have e: "successes t = successes tr"
    using no_submit_counts[OF loop(1)] loop(3) by simp
  have mono: "\<And>s. ends_with s tr \<Longrightarrow> \<exists>pre. t = pre @ s"
    unfolding loop(3) ends_with_def by (metis append_assoc)
  from faucet_loop_successes[OF loop(2)] have
    "int (successes tr) + 1 \<le> 4"
    "int (successes tr) + 1 = 4 \<longrightarrow>
        (\<exists>p b. ends_with [SubmitExtrinsic p True, GetBalance b] tr) \<and> out = max_successes
        \<or> (\<exists>p. ends_with [SubmitExtrinsic p True, Interrupt] tr)
            \<and> out = Returned (True, ''Done'')"
    "out = max_successes \<longrightarrow> int (successes tr) + 1 = 4"
    by simp_all
  then have "successes tr \<le> 3"
    "successes tr = 3 \<longrightarrow>
        (\<exists>p b. ends_with [SubmitExtrinsic p True, GetBalance b] tr) \<and> out = max_successes
        \<or> (\<exists>p. ends_with [SubmitExtrinsic p True, Interrupt] tr)
            \<and> out = Returned (True, ''Done'')"
    "out = max_successes \<longrightarrow> successes tr = 3"
    by auto
  with mono show ?thesis
    unfolding e max_successes_def by blast
qed

theorem faucet_stops_at_third_success_witness:
  "run_faucet_extrinsic (Suc (Suc (Suc (Suc (Suc 0))))) generous (plain 3) 0 =
     (Returned (True, ''Max successes reached: 3''),
      [GetBalance 0,
       CreatePow (Some ()), IsStale () False, SubmitExtrinsic () True, GetBalance 4,
       CreatePow (Some ()), IsStale () False, SubmitExtrinsic () True, GetBalance 8,
       CreatePow (Some ()), IsStale () False, SubmitExtrinsic () True, GetBalance 12], 13)
   \<and> successes
      [GetBalance 0,
       CreatePow (Some ()), IsStale () False, SubmitExtrinsic () True, GetBalance 4,
       CreatePow (Some ()), IsStale () False, SubmitExtrinsic () True, GetBalance 8,
       CreatePow (Some ()), IsStale () False, SubmitExtrinsic () True, GetBalance 12] = 3"
proof -
  have run: "run_faucet_extrinsic (Suc (Suc (Suc (Suc (Suc 0))))) generous (plain 3) 0 =
     (Returned (True, ''Max successes reached: 3''),
      [GetBalance 0,
       CreatePow (Some ()), IsStale () False, SubmitExtrinsic () True, GetBalance 4,
       CreatePow (Some ()), IsStale () False, SubmitExtrinsic () True, GetBalance 8,
       CreatePow (Some ()), IsStale () False, SubmitExtrinsic () True, GetBalance 12], 13)"
    by (simp add: run_faucet_extrinsic_def generous_def faucet_script_def plain_def ask_if_def
        missing_or_stale_def)
  from faucet_stops_at_third_success[OF run] run show ?thesis by simp
qed

text \<open>
  C9.  As stated the claim fails: with \<^verbatim>\<open>max_allowed_attempts = 2\<close>, a failed
  submission, then a successful one, then a failed one end the run with the
  max-attempts failure, though the two failures are not consecutive.
\<close>

theorem faucet_failures_separated_counterexample:
  "run_faucet_extrinsic (Suc (Suc (Suc (Suc (Suc 0))))) flaky (plain 2) 0 =
     (Returned (False, ''Max attempts reached: 2''),
      [GetBalance 0,
       CreatePow (Some ()), IsStale () False, SubmitExtrinsic () False,
       CreatePow (Some ()), IsStale () False, SubmitExtrinsic () True, GetBalance 7,
       CreatePow (Some ()), IsStale () False, SubmitExtrinsic () False], 11)"
  by (simp add: run_faucet_extrinsic_def flaky_def faucet_script_def plain_def ask_if_def
      missing_or_stale_def str_int_def str_nat.simps)

text \<open>
  C9, amended.  The ceiling bounds the failed submissions of the whole call,
  consecutive or not: the run returns the max-attempts failure only when the number
  of failed submissions it has made equals \<^verbatim>\<open>max_allowed_attempts\<close>, and, when
  \<^verbatim>\<open>max_allowed_attempts\<close> is at least 1, it never makes more failed submissions
  than that and returns the max-attempts failure at once on the last of them.
\<close>

theorem faucet_ceiling_counts_all_failures:
  assumes "run_faucet_extrinsic fuel fc c w = (out, t, w')"
  shows "(out = Returned (False, ''Max attempts reached: '' @ str_int (max_allowed_attempts c))
            \<longrightarrow> int (failures t) = max_allowed_attempts c)
    \<and> (1 \<le> max_allowed_attempts c \<longrightarrow>
          int (failures t) \<le> max_allowed_attempts c
          \<and> (int (failures t) = max_allowed_attempts c \<longrightarrow>
                out = Returned (False, ''Max attempts reached: ''
                                        @ str_int (max_allowed_attempts c))
                \<and> (\<exists>pre p. t = pre @ [SubmitExtrinsic p False])))"
  using assms
proof (cases rule: run_faucet_extrinsic_cases)
  case declined
  then show ?thesis by simp
next
  case no_torch
  with no_submit_counts[OF no_torch(2)] show ?thesis by simp
next
  case (loop t0 w2 tr)
  have e: "failures t = failures tr"
    using no_submit_counts[OF loop(1)] loop(3) by simp
  have mono: "\<And>s. ends_with s tr \<Longrightarrow> \<exists>pre. t = pre @ s"
    unfolding loop(3) ends_with_def by (metis append_assoc)
  from faucet_loop_failures[OF loop(2)] have
    "out = max_attempts c \<longrightarrow> int (failures tr) = max_allowed_attempts c"
    "1 \<le> max_allowed_attempts c \<longrightarrow> int (failures tr) \<le> max_allowed_attempts c
      \<and> (int (failures tr) = max_allowed_attempts c \<longrightarrow>
            out = max_attempts c \<and> (\<exists>p. ends_with [SubmitExtrinsic p False] tr))"
    by simp_all
  with mono show ?thesis
    unfolding e max_attempts_def by blast
qed

theorem faucet_ceiling_counts_all_failures_witness:
  "run_faucet_extrinsic (Suc (Suc (Suc (Suc (Suc 0))))) flaky (plain 2) 0 =
     (Returned (False, ''Max attempts reached: 2''),
      [GetBalance 0,
       CreatePow (Some ()), IsStale () False, SubmitExtrinsic () False,
       CreatePow (Some ()), IsStale () False, SubmitExtrinsic () True, GetBalance 7,
       CreatePow (Some ()), IsStale () False, SubmitExtrinsic () False], 11)
   \<and> max_allowed_attempts (plain 2) = 2
   \<and> failures
      [GetBalance 0,
       CreatePow (Some ()), IsStale () False, SubmitExtrinsic () False,
       CreatePow (Some ()), IsStale () False, SubmitExtrinsic () True, GetBalance 7,
       CreatePow (Some ()), IsStale () False, SubmitExtrinsic () False] = 2"
proof -
  have run: "run_faucet_extrinsic (Suc (Suc (Suc (Suc (Suc 0))))) flaky (plain 2) 0 =
     (Returned (False, ''Max attempts reached: 2''),
      [GetBalance 0,
       CreatePow (Some ()), IsStale () False, SubmitExtrinsic () False,
       CreatePow (Some ()), IsStale () False, SubmitExtrinsic () True, GetBalance 7,
       CreatePow (Some ()), IsStale () False, SubmitExtrinsic () False], 11)"
    by (simp add: run_faucet_extrinsic_def flaky_def faucet_script_def plain_def ask_if_def
        missing_or_stale_def str_int_def str_nat.simps)
  have m: "max_allowed_attempts (plain 2) = 2"
    by (simp add: plain_def)
  from faucet_ceiling_counts_all_failures[OF run] run m show ?thesis by simp
qed

end
